theory Spec2Isabelle
  imports Main
begin

section \<open>BSTMap: a map backed by an unbalanced binary search tree\<close>

text \<open>
  This theory embeds \<^verbatim>\<open>SYSC2100/bstmap.py\<close>. A \<^verbatim>\<open>_Node\<close> object has the fields
  \<^verbatim>\<open>key\<close>, \<^verbatim>\<open>value\<close>, \<^verbatim>\<open>left\<close> and \<^verbatim>\<open>right\<close>, in this order; a link that is
  \<^verbatim>\<open>None\<close> in Python is \<open>None\<close> here. No node is shared between two parents, so
  the in-place assignments of the source (\<^verbatim>\<open>node.value = ...\<close>, \<^verbatim>\<open>node.left = ...\<close>)
  are modelled by rebuilding the node.
\<close>

subsection \<open>Data model\<close>

datatype ('k, 'v) node =
  Node 'k 'v "('k, 'v) node option" "('k, 'v) node option"

text \<open>
  The only \<^verbatim>\<open>raise\<close> of the source is \<^verbatim>\<open>KeyError(f'{key}')\<close>; the model keeps the key
  the message is formatted from.
\<close>

datatype 'k error = KeyError 'k

record ('k, 'v) bstmap =
  root :: "('k, 'v) node option"
  num_entries :: int

subsection \<open>Operations on totally ordered keys\<close>

text \<open>\<^verbatim>\<open>_Node.__iter__\<close>: the generator is modelled by the list of keys it yields.\<close>

fun node_iter :: "('k, 'v) node \<Rightarrow> 'k list" where
  "node_iter (Node k v l r) =
     (case l of None \<Rightarrow> [] | Some n \<Rightarrow> node_iter n) @ [k] @
     (case r of None \<Rightarrow> [] | Some n \<Rightarrow> node_iter n)"

text \<open>
  \<^verbatim>\<open>_set_item\<close>, nested in \<^verbatim>\<open>__setitem__\<close>: returns the root of the subtree; the last
  argument and the second result are \<^verbatim>\<open>self._num_entries\<close> before and after.
\<close>

fun set_item ::
  "('k::linorder, 'v) node option \<Rightarrow> 'k \<Rightarrow> 'v \<Rightarrow> int \<Rightarrow> ('k, 'v) node \<times> int" where
  "set_item None key newvalue n = (Node key newvalue None None, n + 1)"
| "set_item (Some (Node k v l r)) key newvalue n =
     (if k = key then (Node k newvalue l r, n)
      else if key < k then
        (case set_item l key newvalue n of (l', n') \<Rightarrow> (Node k v (Some l') r, n'))
      else
        (case set_item r key newvalue n of (r', n') \<Rightarrow> (Node k v l (Some r'), n')))"

text \<open>\<^verbatim>\<open>__setitem__\<close>: the state after \<^verbatim>\<open>self[key] = newvalue\<close>.\<close>

definition setitem :: "('k::linorder, 'v) bstmap \<Rightarrow> 'k \<Rightarrow> 'v \<Rightarrow> ('k, 'v) bstmap" where
  "setitem self key newvalue =
     (case set_item (root self) key newvalue (num_entries self) of
        (r, n) \<Rightarrow> \<lparr>root = Some r, num_entries = n\<rparr>)"

text \<open>\<^verbatim>\<open>_get_item\<close>, \<^verbatim>\<open>_get\<close> and \<^verbatim>\<open>_contains\<close>: the three recursive searches.\<close>

fun get_item :: "('k::linorder, 'v) node option \<Rightarrow> 'k \<Rightarrow> 'k error + 'v" where
  "get_item None key = Inl (KeyError key)"
| "get_item (Some (Node k v l r)) key =
     (if k = key then Inr v
      else if key < k then get_item l key
      else get_item r key)"

fun get_rec :: "'v \<Rightarrow> ('k::linorder, 'v) node option \<Rightarrow> 'k \<Rightarrow> 'v" where
  "get_rec default_value None key = default_value"
| "get_rec default_value (Some (Node k v l r)) key =
     (if k = key then v
      else if key < k then get_rec default_value l key
      else get_rec default_value r key)"

fun contains_rec :: "('k::linorder, 'v) node option \<Rightarrow> 'k \<Rightarrow> bool" where
  "contains_rec None key = False"
| "contains_rec (Some (Node k v l r)) key =
     (if k = key then True
      else if key < k then contains_rec l key
      else contains_rec r key)"

text \<open>
  The methods that only read. Each returns its result together with the map state
  after the call, so that what a call does to the map is part of the model.
\<close>

definition getitem ::
  "('k::linorder, 'v) bstmap \<Rightarrow> 'k \<Rightarrow> ('k error + 'v) \<times> ('k, 'v) bstmap" where
  "getitem self key = (get_item (root self) key, self)"

definition get ::
  "('k::linorder, 'v) bstmap \<Rightarrow> 'k \<Rightarrow> 'v \<Rightarrow> 'v \<times> ('k, 'v) bstmap" where
  "get self key default_value = (get_rec default_value (root self) key, self)"

definition contains :: "('k::linorder, 'v) bstmap \<Rightarrow> 'k \<Rightarrow> bool \<times> ('k, 'v) bstmap" where
  "contains self key = (contains_rec (root self) key, self)"

definition len :: "('k, 'v) bstmap \<Rightarrow> int \<times> ('k, 'v) bstmap" where
  "len self = (num_entries self, self)"

text \<open>\<^verbatim>\<open>BSTMap.__iter__\<close>: the root's iterator, or the iterator of an empty list.\<close>

definition iter :: "('k, 'v) bstmap \<Rightarrow> 'k list \<times> ('k, 'v) bstmap" where
  "iter self =
     (case root self of Some r \<Rightarrow> (node_iter r, self) | None \<Rightarrow> ([], self))"

text \<open>
  \<^verbatim>\<open>__init__\<close>: an empty map, then \<^verbatim>\<open>self[key] = value\<close> for each pair of the
  iterable, in order.
\<close>

fun init_loop :: "('k::linorder, 'v) bstmap \<Rightarrow> ('k \<times> 'v) list \<Rightarrow> ('k, 'v) bstmap" where
  "init_loop self [] = self"
| "init_loop self ((key, value) # rest) = init_loop (setitem self key value) rest"

definition init :: "('k::linorder \<times> 'v) list \<Rightarrow> ('k, 'v) bstmap" where
  "init iterable = init_loop \<lparr>root = None, num_entries = 0\<rparr> iterable"

text \<open>
  A sequence of explicit \<^verbatim>\<open>m[key] = value\<close> statements on a map: the states reachable
  from the empty map are \<open>inserts (init []) ps\<close>.
\<close>

definition inserts ::
  "('k::linorder, 'v) bstmap \<Rightarrow> ('k \<times> 'v) list \<Rightarrow> ('k, 'v) bstmap" where
  "inserts m ps = foldl (\<lambda>m' (k, v). setitem m' k v) m ps"

text \<open>
  \<^verbatim>\<open>get(self, key, default_value=None)\<close> as a caller sees it: the third argument
  may be left out (\<open>None\<close> here), and then the parameter is Python's \<^verbatim>\<open>None\<close>. The
  values of such a map are Python objects, among them \<^verbatim>\<open>None\<close>.
\<close>

datatype 'a pyval = PyNone | PyObj 'a

definition get_call ::
  "('k::linorder, 'a pyval) bstmap \<Rightarrow> 'k \<Rightarrow> 'a pyval option \<Rightarrow>
     'a pyval \<times> ('k, 'a pyval) bstmap" where
  "get_call self key arg =
     get self key (case arg of None \<Rightarrow> PyNone | Some default_value \<Rightarrow> default_value)"

subsection \<open>String rendering\<close>

text \<open>\<^verbatim>\<open>sep.join(items)\<close> of Python.\<close>

fun join :: "string \<Rightarrow> string list \<Rightarrow> string" where
  "join sep [] = []"
| "join sep [x] = x"
| "join sep (x # y # ys) = x @ sep @ join sep (y # ys)"

text \<open>
  The list comprehension of \<^verbatim>\<open>__str__\<close>:
  \<^verbatim>\<open>[repr(key) + ': ' + repr(self[key]) for key in self]\<close>. The built-in \<^verbatim>\<open>repr\<close> on
  keys and on values is a parameter; \<^verbatim>\<open>self[key]\<close> may raise.
\<close>

fun str_items ::
  "('k \<Rightarrow> string) \<Rightarrow> ('v \<Rightarrow> string) \<Rightarrow> ('k::linorder, 'v) bstmap \<Rightarrow> 'k list \<Rightarrow>
     'k error + string list" where
  "str_items repr_k repr_v self [] = Inr []"
| "str_items repr_k repr_v self (key # keys) =
     (case fst (getitem self key) of
        Inl e \<Rightarrow> Inl e
      | Inr v \<Rightarrow>
          (case str_items repr_k repr_v self keys of
             Inl e \<Rightarrow> Inl e
           | Inr items \<Rightarrow> Inr ((repr_k key @ '': '' @ repr_v v) # items)))"

text \<open>\<^verbatim>\<open>__str__\<close>: \<^verbatim>\<open>"{{{0}}}".format(", ".join([...]))\<close>.\<close>

definition str ::
  "('k \<Rightarrow> string) \<Rightarrow> ('v \<Rightarrow> string) \<Rightarrow> ('k::linorder, 'v) bstmap \<Rightarrow>
     ('k error + string) \<times> ('k, 'v) bstmap" where
  "str repr_k repr_v self =
     (case str_items repr_k repr_v self (fst (iter self)) of
        Inl e \<Rightarrow> (Inl e, self)
      | Inr items \<Rightarrow> (Inr (''{'' @ join '', '' items @ ''}''), self))"

text \<open>\<^verbatim>\<open>__repr__ = __str__\<close>.\<close>

definition repr ::
  "('k \<Rightarrow> string) \<Rightarrow> ('v \<Rightarrow> string) \<Rightarrow> ('k::linorder, 'v) bstmap \<Rightarrow>
     ('k error + string) \<times> ('k, 'v) bstmap" where
  "repr = str"

text \<open>
  Python's built-in \<^verbatim>\<open>repr\<close> on \<^verbatim>\<open>int\<close> (decimal digits, a minus sign for a negative
  number) and on \<^verbatim>\<open>str\<close>, for ASCII strings: single quotes, unless the string has a
  single quote and no double quote; the quote in use and the backslash are escaped,
  control characters are written as escapes.
\<close>

definition digit_char :: "nat \<Rightarrow> char" where
  "digit_char d = ''0123456789abcdef'' ! d"

fun digits :: "nat \<Rightarrow> string" where
  "digits n = (if n < 10 then [digit_char n] else digits (n div 10) @ [digit_char (n mod 10)])"

definition repr_int :: "int \<Rightarrow> string" where
  "repr_int i = (if i < 0 then ''-'' @ digits (nat (- i)) else digits (nat i))"

definition escape_char :: "char \<Rightarrow> char \<Rightarrow> string" where
  "escape_char quote c =
     (if c = quote \<or> c = CHR 0x5C then [CHR 0x5C, c]
      else if c = CHR 0x09 then [CHR 0x5C, CHR ''t'']
      else if c = CHR 0x0A then [CHR 0x5C, CHR ''n'']
      else if c = CHR 0x0D then [CHR 0x5C, CHR ''r'']
      else if (of_char c :: nat) < 32 \<or> (of_char c :: nat) = 127 then
        [CHR 0x5C, CHR ''x'', digit_char (of_char c div 16), digit_char (of_char c mod 16)]
      else [c])"

definition repr_str :: "string \<Rightarrow> string" where
  "repr_str s =
     (let quote = (if CHR 0x27 \<in> set s \<and> CHR 0x22 \<notin> set s then CHR 0x22 else CHR 0x27)
      in [quote] @ concat (map (escape_char quote) s) @ [quote])"

subsection \<open>Insertion when a call may raise\<close>

text \<open>
  The exceptions an insertion can end with: the interpreter's \<^verbatim>\<open>RecursionError\<close>, raised
  by a call of a Python function that would put more frames on the stack than the
  recursion limit allows, and whatever a key comparison raises.
\<close>

datatype 'e exc = RecursionError | Raised 'e

text \<open>
  \<^verbatim>\<open>_set_item\<close> once more, now with \<^verbatim>\<open>node.key == key\<close> and \<^verbatim>\<open>key < node.key\<close> as
  parameters that may raise, and with the call stack: \<open>limit\<close> is the recursion limit and
  \<open>depth\<close> the number of frames on the stack while this call of \<^verbatim>\<open>_set_item\<close> runs, its
  own frame included. The calls it makes, \<^verbatim>\<open>BSTMap._Node(key, newvalue)\<close> (which runs
  \<^verbatim>\<open>_Node.__init__\<close>) and \<^verbatim>\<open>_set_item\<close> on a child, need frame \<open>depth + 1\<close>. In the
  branch for an absent node the source runs \<^verbatim>\<open>self._num_entries += 1\<close> first and calls
  \<^verbatim>\<open>BSTMap._Node\<close> after it.

  The result has three parts: the exception raised or the node returned; the subtree
  that was passed in, as the call has left it; the counter, as the call has left it. An
  exception leaves \<^verbatim>\<open>node.left = ...\<close> or \<^verbatim>\<open>node.right = ...\<close> of the caller undone, so
  the caller keeps the child as the failed call has left it.
\<close>

fun set_item_exc ::
  "('k \<Rightarrow> 'k \<Rightarrow> 'e + bool) \<Rightarrow> ('k \<Rightarrow> 'k \<Rightarrow> 'e + bool) \<Rightarrow> nat \<Rightarrow> nat \<Rightarrow>
     ('k, 'v) node option \<Rightarrow> 'k \<Rightarrow> 'v \<Rightarrow> int \<Rightarrow>
     ('e exc + ('k, 'v) node) \<times> ('k, 'v) node option \<times> int" where
  "set_item_exc eq lt limit depth None key newvalue n =
     (if limit < depth + 1 then (Inl RecursionError, None, n + 1)
      else (Inr (Node key newvalue None None), None, n + 1))"
| "set_item_exc eq lt limit depth (Some (Node k v l r)) key newvalue n =
     (case eq k key of
        Inl e \<Rightarrow> (Inl (Raised e), Some (Node k v l r), n)
      | Inr True \<Rightarrow> (Inr (Node k newvalue l r), Some (Node k newvalue l r), n)
      | Inr False \<Rightarrow>
          (case lt key k of
             Inl e \<Rightarrow> (Inl (Raised e), Some (Node k v l r), n)
           | Inr True \<Rightarrow>
               (if limit < depth + 1 then (Inl RecursionError, Some (Node k v l r), n)
                else
                  (case set_item_exc eq lt limit (depth + 1) l key newvalue n of
                     (Inl e, l', n') \<Rightarrow> (Inl e, Some (Node k v l' r), n')
                   | (Inr c, l', n') \<Rightarrow>
                       (Inr (Node k v (Some c) r), Some (Node k v (Some c) r), n')))
           | Inr False \<Rightarrow>
               (if limit < depth + 1 then (Inl RecursionError, Some (Node k v l r), n)
                else
                  (case set_item_exc eq lt limit (depth + 1) r key newvalue n of
                     (Inl e, r', n') \<Rightarrow> (Inl e, Some (Node k v l r'), n')
                   | (Inr c, r', n') \<Rightarrow>
                       (Inr (Node k v l (Some c)), Some (Node k v l (Some c)), n')))))"

text \<open>
  \<^verbatim>\<open>__setitem__\<close>, running in frame \<open>depth\<close>: the exception, if any, and the map state
  after the call; \<^verbatim>\<open>self._root = ...\<close> is not reached when \<^verbatim>\<open>_set_item\<close> raises.
\<close>

definition setitem_exc ::
  "('k \<Rightarrow> 'k \<Rightarrow> 'e + bool) \<Rightarrow> ('k \<Rightarrow> 'k \<Rightarrow> 'e + bool) \<Rightarrow> nat \<Rightarrow> nat \<Rightarrow>
     ('k, 'v) bstmap \<Rightarrow> 'k \<Rightarrow> 'v \<Rightarrow> 'e exc option \<times> ('k, 'v) bstmap" where
  "setitem_exc eq lt limit depth self key newvalue =
     (if limit < depth + 1 then (Some RecursionError, self)
      else
        (case set_item_exc eq lt limit (depth + 1) (root self) key newvalue
                (num_entries self) of
           (Inl e, t', n') \<Rightarrow> (Some e, \<lparr>root = t', num_entries = n'\<rparr>)
         | (Inr c, t', n') \<Rightarrow> (None, \<lparr>root = Some c, num_entries = n'\<rparr>)))"

subsection \<open>Notions used in the statements\<close>

text \<open>The keys of a subtree in in-order, and the binary search tree ordering.\<close>

definition okeys :: "('k, 'v) node option \<Rightarrow> 'k list" where
  "okeys t = (case t of None \<Rightarrow> [] | Some n \<Rightarrow> node_iter n)"

fun bst :: "('k::linorder, 'v) node option \<Rightarrow> bool" where
  "bst None = True"
| "bst (Some (Node k v l r)) =
     ((\<forall>x \<in> set (okeys l). x < k) \<and> (\<forall>x \<in> set (okeys r). k < x) \<and> bst l \<and> bst r)"

definition invar :: "('k::linorder, 'v) bstmap \<Rightarrow> bool" where
  "invar m = (bst (root m) \<and> num_entries m = int (length (okeys (root m))))"

text \<open>
  \<open>links_leaf t key nv t'\<close>: \<open>t'\<close> is \<open>t\<close> with one absent link replaced by the new leaf
  \<open>(key, nv)\<close>. \<open>overwrites t key nv t'\<close>: \<open>t'\<close> is \<open>t\<close> with the value of one node, whose
  key compares equal to \<open>key\<close>, replaced by \<open>nv\<close>.
\<close>

fun links_leaf ::
  "('k, 'v) node option \<Rightarrow> 'k \<Rightarrow> 'v \<Rightarrow> ('k, 'v) node option \<Rightarrow> bool" where
  "links_leaf None key nv t' = (t' = Some (Node key nv None None))"
| "links_leaf (Some (Node k v l r)) key nv None = False"
| "links_leaf (Some (Node k v l r)) key nv (Some (Node k' v' l' r')) =
     (k' = k \<and> v' = v \<and>
      ((links_leaf l key nv l' \<and> r' = r) \<or> (l' = l \<and> links_leaf r key nv r')))"

fun overwrites ::
  "('k \<Rightarrow> 'k \<Rightarrow> 'e + bool) \<Rightarrow> ('k, 'v) node option \<Rightarrow> 'k \<Rightarrow> 'v \<Rightarrow>
     ('k, 'v) node option \<Rightarrow> bool" where
  "overwrites eq (Some (Node k v l r)) key nv (Some (Node k' v' l' r')) =
     (k' = k \<and>
      ((eq k key = Inr True \<and> v' = nv \<and> l' = l \<and> r' = r) \<or>
       (v' = v \<and> overwrites eq l key nv l' \<and> r' = r) \<or>
       (v' = v \<and> l' = l \<and> overwrites eq r key nv r')))"
| "overwrites eq t key nv t' = False"

text \<open>
  The tree that inserting the keys \<open>a\<close>, \<open>a + 1\<close>, ..., \<open>a + j - 1\<close> in this order builds:
  every node is the right child of the one before.
\<close>

fun spine :: "int \<Rightarrow> nat \<Rightarrow> 'v \<Rightarrow> (int, 'v) node option" where
  "spine a 0 v = None"
| "spine a (Suc j) v = Some (Node a v None (spine (a + 1) j v))"

section \<open>Properties of the tree operations\<close>

lemma okeys_None [simp]: "okeys None = []"
  by (simp add: okeys_def)

lemma okeys_Some [simp]: "okeys (Some (Node k v l r)) = okeys l @ [k] @ okeys r"
  by (simp add: okeys_def)

lemma set_item_Some:
  "set_item (Some (Node k v l r)) key nv n =
     (if k = key then (Node k nv l r, n)
      else if key < k then (Node k v (Some (fst (set_item l key nv n))) r, snd (set_item l key nv n))
      else (Node k v l (Some (fst (set_item r key nv n))), snd (set_item r key nv n)))"
  by (simp add: case_prod_beta)

declare set_item.simps(2) [simp del]
declare set_item_Some [simp]

lemma set_okeys_set_item:
  "set (okeys (Some (fst (set_item t key nv n)))) = insert key (set (okeys t))"
  by (induction t key nv n rule: set_item.induct) auto

lemma bst_set_item: "bst t \<Longrightarrow> bst (Some (fst (set_item t key nv n)))"
  by (induction t key nv n rule: set_item.induct) (auto simp: set_okeys_set_item)

lemma bst_sorted: "bst t \<Longrightarrow> sorted_wrt (<) (okeys t)"
proof (induction t rule: bst.induct)
  case 1
  then show ?case by simp
next
  case (2 k v l r)
  then have "sorted_wrt (<) (okeys l)" "sorted_wrt (<) (okeys r)"
    and lk: "\<forall>x \<in> set (okeys l). x < k" and rk: "\<forall>x \<in> set (okeys r). k < x"
    by simp_all
  moreover from lk rk have "\<forall>x \<in> set (okeys l). \<forall>y \<in> set (okeys r). x < y"
    by (meson less_trans)
  ultimately show ?case by (simp add: sorted_wrt_append)
qed

lemma get_item_set_item:
  "get_item (Some (fst (set_item t key nv n))) k' =
     (if k' = key then Inr nv else get_item t k')"
  by (induction t key nv n rule: set_item.induct) auto

lemma count_set_item:
  "snd (set_item t key nv n) = (if contains_rec t key then n else n + 1)"
  by (induction t key nv n rule: set_item.induct) auto

lemma length_okeys_set_item:
  "length (okeys (Some (fst (set_item t key nv n)))) =
     (if contains_rec t key then length (okeys t) else length (okeys t) + 1)"
  by (induction t key nv n rule: set_item.induct) auto

lemma contains_rec_iff: "bst t \<Longrightarrow> contains_rec t key = (key \<in> set (okeys t))"
  by (induction t key rule: contains_rec.induct) auto

lemma get_item_absent: "\<not> contains_rec t key \<Longrightarrow> get_item t key = Inl (KeyError key)"
  by (induction t key rule: contains_rec.induct) (auto split: if_splits)

lemma get_item_error: "get_item t key = Inl e \<Longrightarrow> e = KeyError key"
  by (induction t key rule: get_item.induct) (auto split: if_splits)

lemma get_rec_absent: "\<not> contains_rec t key \<Longrightarrow> get_rec d t key = d"
  by (induction t key rule: contains_rec.induct) (auto split: if_splits)

lemma get_rec_get_item:
  "get_rec d t key = (case (get_item t key) of Inl e \<Rightarrow> d | Inr v \<Rightarrow> v)"
  by (induction t key rule: get_item.induct) auto

lemma contains_rec_set_item:
  "contains_rec (Some (fst (set_item t key nv n))) k' = (k' = key \<or> contains_rec t k')"
  by (induction t key nv n rule: set_item.induct) auto

lemma get_rec_set_item:
  "get_rec d (Some (fst (set_item t key nv n))) k' = (if k' = key then nv else get_rec d t k')"
  by (induction t key nv n rule: set_item.induct) auto

subsection \<open>The map as a whole\<close>

lemma root_setitem: "root (setitem m key nv) = Some (fst (set_item (root m) key nv (num_entries m)))"
  by (simp add: setitem_def case_prod_beta)

lemma num_entries_setitem:
  "num_entries (setitem m key nv) = snd (set_item (root m) key nv (num_entries m))"
  by (simp add: setitem_def case_prod_beta)

lemma invar_empty: "invar \<lparr>root = None, num_entries = 0\<rparr>"
  by (simp add: invar_def)

lemma invar_setitem: "invar m \<Longrightarrow> invar (setitem m key nv)"
  by (simp add: invar_def root_setitem num_entries_setitem bst_set_item count_set_item
      length_okeys_set_item)

lemma inserts_Nil: "inserts m [] = m"
  by (simp add: inserts_def)

lemma inserts_Cons: "inserts m ((k, v) # ps) = inserts (setitem m k v) ps"
  by (simp add: inserts_def)

lemma inserts_snoc: "inserts m (ps @ [(k, v)]) = setitem (inserts m ps) k v"
  by (simp add: inserts_def)

lemma init_loop_inserts: "init_loop m ps = inserts m ps"
  by (induction m ps rule: init_loop.induct) (simp_all add: inserts_Nil inserts_Cons)

lemma invar_inserts: "invar m \<Longrightarrow> invar (inserts m ps)"
  by (induction ps arbitrary: m) (auto simp: inserts_Nil inserts_Cons invar_setitem)

lemma keys_inserts:
  "set (okeys (root (inserts m ps))) = set (okeys (root m)) \<union> fst ` set ps"
proof (induction ps arbitrary: m)
  case Nil
  show ?case by (simp add: inserts_Nil)
next
  case (Cons p ps)
  obtain k v where p: "p = (k, v)" by (cases p)
  have "set (okeys (root (inserts m (p # ps)))) =
          insert k (set (okeys (root m))) \<union> fst ` set ps"
    by (simp add: p inserts_Cons Cons.IH root_setitem set_okeys_set_item)
  then show ?case by (simp add: p)
qed

lemma init_Nil: "init [] = \<lparr>root = None, num_entries = 0\<rparr>"
  by (simp add: init_def)

lemma invar_reach: "invar (inserts (init []) ps)"
  by (simp add: init_Nil invar_inserts invar_empty)

lemma keys_reach: "set (okeys (root (inserts (init []) ps))) = fst ` set ps"
  by (simp add: keys_inserts init_Nil)

lemma fst_iter: "fst (iter m) = okeys (root m)"
  by (simp add: iter_def okeys_def split: option.splits)

lemma snd_iter: "snd (iter m) = m"
  by (simp add: iter_def split: option.splits)

lemma get_item_inserts_absent:
  "key \<notin> fst ` set ps \<Longrightarrow> get_item (root (inserts m ps)) key = get_item (root m) key"
  by (induction ps arbitrary: m)
     (auto simp: inserts_Nil inserts_Cons root_setitem get_item_set_item)

lemma get_item_last:
  "key \<notin> fst ` set ys \<Longrightarrow>
   get_item (root (inserts m (xs @ (key, v) # ys))) key = Inr v"
proof -
  assume a: "key \<notin> fst ` set ys"
  have "inserts m (xs @ (key, v) # ys) = inserts (setitem (inserts m xs) key v) ys"
    by (simp add: inserts_def)
  then show ?thesis
    by (simp add: get_item_inserts_absent [OF a] root_setitem get_item_set_item)
qed

lemma get_item_reach:
  "get_item (root (inserts (init []) ps)) key =
     (case map_of (rev ps) key of None \<Rightarrow> Inl (KeyError key) | Some v \<Rightarrow> Inr v)"
proof (induction ps rule: rev_induct)
  case Nil
  show ?case by (simp add: inserts_Nil init_Nil)
next
  case (snoc p ps)
  obtain k v where p: "p = (k, v)" by (cases p)
  show ?case
    by (simp add: p inserts_snoc root_setitem get_item_set_item snoc.IH)
qed

lemma okeys_reach: "okeys (root (inserts (init []) ps)) = sorted_list_of_set (fst ` set ps)"
proof -
  let ?xs = "okeys (root (inserts (init []) ps))"
  have "bst (root (inserts (init []) ps))"
    using invar_reach [of ps] by (simp add: invar_def)
  then have "sorted_wrt (<) ?xs" by (rule bst_sorted)
  then have "sorted ?xs" "distinct ?xs" by (simp_all add: strict_sorted_iff)
  then have "sorted_list_of_set (set ?xs) = ?xs"
    by (rule sorted_list_of_set.idem_if_sorted_distinct)
  then show ?thesis by (simp add: keys_reach)
qed

lemma str_items_reach:
  "set ks \<subseteq> fst ` set ps \<Longrightarrow>
   str_items repr_k repr_v (inserts (init []) ps) ks =
     Inr (map (\<lambda>k. repr_k k @ '': '' @ repr_v (the (map_of (rev ps) k))) ks)"
proof (induction ks)
  case Nil
  show ?case by simp
next
  case (Cons k ks)
  then have "k \<in> fst ` set (rev ps)" by simp
  then obtain v where v: "map_of (rev ps) k = Some v"
    by (metis domD dom_map_of_conv_image_fst)
  from Cons show ?case by (simp add: getitem_def get_item_reach v)
qed

subsection \<open>Insertion when a call may raise\<close>

lemma set_item_exc_Raised:
  "fst (set_item_exc eq lt limit d t key nv n) = Inl (Raised e) \<Longrightarrow>
   snd (set_item_exc eq lt limit d t key nv n) = (t, n)"
  by (induction eq lt limit d t key nv n rule: set_item_exc.induct)
     (auto split: sum.splits bool.splits prod.splits if_splits)

lemma set_item_exc_RecursionError:
  "fst (set_item_exc eq lt limit d t key nv n) = Inl RecursionError \<Longrightarrow>
   fst (snd (set_item_exc eq lt limit d t key nv n)) = t \<and>
   (snd (snd (set_item_exc eq lt limit d t key nv n)) = n \<or>
    snd (snd (set_item_exc eq lt limit d t key nv n)) = n + 1)"
  by (induction eq lt limit d t key nv n rule: set_item_exc.induct)
     (auto split: sum.splits bool.splits prod.splits if_splits)

lemma set_item_exc_returns:
  "set_item_exc eq lt limit d t key nv n = (Inr c, t', n') \<Longrightarrow>
   (links_leaf t key nv (Some c) \<and> n' = n + 1) \<or> (overwrites eq t key nv (Some c) \<and> n' = n)"
  by (induction eq lt limit d t key nv n arbitrary: c t' n' rule: set_item_exc.induct)
     (auto split: sum.splits bool.splits prod.splits if_splits)

lemma set_item_exc_total:
  "d + length (okeys t) < limit \<Longrightarrow>
   fst (set_item_exc (\<lambda>a b. (Inr (a = b) :: 'e + bool)) (\<lambda>a b. (Inr (a < b) :: 'e + bool))
          limit d t key nv n) = Inr (fst (set_item t key nv n)) \<and>
   snd (snd (set_item_exc (\<lambda>a b. (Inr (a = b) :: 'e + bool)) (\<lambda>a b. (Inr (a < b) :: 'e + bool))
          limit d t key nv n)) = snd (set_item t key nv n)"
proof (induction t key nv n arbitrary: d rule: set_item.induct)
  case (1 key nv n)
  then show ?case by simp
next
  case (2 k v l r key nv n)
  let ?f = "set_item_exc (\<lambda>a b. (Inr (a = b) :: 'e + bool)) (\<lambda>a b. (Inr (a < b) :: 'e + bool))
              limit (d + 1)"
  from "2.prems" have dl: "\<not> limit < d + 1"
    and l: "(d + 1) + length (okeys l) < limit" and r: "(d + 1) + length (okeys r) < limit"
    by simp_all
  show ?case
  proof (cases "k = key")
    case True
    then show ?thesis by simp
  next
    case ne: False
    show ?thesis
    proof (cases "key < k")
      case True
      obtain out l' n' where s: "?f l key nv n = (out, l', n')" by (rule prod_cases3)
      with "2.IH"(1) [OF ne True l] have "out = Inr (fst (set_item l key nv n))"
        and "n' = snd (set_item l key nv n)" by simp_all
      with s ne True dl show ?thesis by simp
    next
      case False
      obtain out r' n' where s: "?f r key nv n = (out, r', n')" by (rule prod_cases3)
      with "2.IH"(2) [OF ne False r] have "out = Inr (fst (set_item r key nv n))"
        and "n' = snd (set_item r key nv n)" by simp_all
      with s ne False dl show ?thesis by simp
    qed
  qed
qed

lemma setitem_exc_total:
  "d + 1 + length (okeys (root m)) < limit \<Longrightarrow>
   setitem_exc (\<lambda>a b. (Inr (a = b) :: 'e + bool)) (\<lambda>a b. (Inr (a < b) :: 'e + bool))
     limit d m key nv = (None, setitem m key nv)"
proof -
  assume a: "d + 1 + length (okeys (root m)) < limit"
  let ?r = "set_item_exc (\<lambda>a b. (Inr (a = b) :: 'e + bool)) (\<lambda>a b. (Inr (a < b) :: 'e + bool))
              limit (d + 1) (root m) key nv (num_entries m)"
  obtain out t' n' where s: "?r = (out, t', n')" by (rule prod_cases3)
  then have "out = fst ?r" and "n' = snd (snd ?r)" by simp_all
  with set_item_exc_total [OF a, where ?'e = 'e, of key nv "num_entries m"]
  have "out = Inr (fst (set_item (root m) key nv (num_entries m)))"
    and "n' = snd (set_item (root m) key nv (num_entries m))" by simp_all
  with s a show ?thesis by (simp add: setitem_exc_def setitem_def case_prod_beta)
qed

lemma set_item_spine:
  "key = a + int j \<Longrightarrow>
   set_item (spine a j v) key v n = (Node a v None (spine (a + 1) j v), n + 1)"
proof (induction j arbitrary: a)
  case 0
  then show ?case by simp
next
  case (Suc j)
  from Suc.prems have k: "key = (a + 1) + int j" by simp
  from Suc.IH [OF k] Suc.prems show ?case by simp
qed

lemma inserts_ascending:
  "inserts (init []) (map (\<lambda>i. (int i, v)) [0..<j]) = \<lparr>root = spine 0 j v, num_entries = int j\<rparr>"
proof (induction j)
  case 0
  show ?case by (simp add: inserts_Nil init_Nil)
next
  case (Suc j)
  have "inserts (init []) (map (\<lambda>i. (int i, v)) [0..<Suc j]) =
          setitem (inserts (init []) (map (\<lambda>i. (int i, v)) [0..<j])) (int j) v"
    by (simp add: inserts_snoc)
  also have "\<dots> = \<lparr>root = spine 0 (Suc j) v, num_entries = int (Suc j)\<rparr>"
    using set_item_spine [of "int j" 0 j v "int j"] by (simp add: Suc.IH setitem_def)
  finally show ?case .
qed

lemma okeys_spine: "okeys (spine a j v) = map (\<lambda>i. a + int i) [0..<j]"
proof (induction j arbitrary: a)
  case 0
  show ?case by simp
next
  case (Suc j)
  have "map (\<lambda>i. a + int i) [0..<Suc j] = a # map (\<lambda>i. a + 1 + int i) [0..<j]"
    by (simp add: upt_conv_Cons map_Suc_upt [symmetric] del: upt_Suc)
  with Suc show ?case by simp
qed

lemma set_item_exc_spine:
  "d + j = limit \<Longrightarrow> key = a + int j \<Longrightarrow>
   set_item_exc (\<lambda>a b. (Inr (a = b) :: 'e + bool)) (\<lambda>a b. (Inr (a < b) :: 'e + bool))
     limit d (spine a j v) key v n = (Inl RecursionError, spine a j v, n + 1)"
proof (induction j arbitrary: a d)
  case 0
  then show ?case by simp
next
  case (Suc j)
  from Suc.prems have d: "(d + 1) + j = limit" and k: "key = (a + 1) + int j" by simp_all
  from Suc.IH [OF d k] Suc.prems show ?case by simp
qed

lemma setitem_exc_Raised:
  "fst (setitem_exc eq lt limit d m key nv) = Some (Raised e) \<Longrightarrow>
   snd (setitem_exc eq lt limit d m key nv) = m"
proof -
  assume a: "fst (setitem_exc eq lt limit d m key nv) = Some (Raised e)"
  obtain out t' n' where s:
    "set_item_exc eq lt limit (d + 1) (root m) key nv (num_entries m) = (out, t', n')"
    by (rule prod_cases3)
  from a have dl: "\<not> limit < d + 1" by (auto simp: setitem_exc_def)
  with a s have "out = Inl (Raised e)"
    by (cases out) (simp_all add: setitem_exc_def)
  with s set_item_exc_Raised [of eq lt limit "d + 1" "root m" key nv "num_entries m" e]
  have "t' = root m" "n' = num_entries m" by simp_all
  with s dl \<open>out = Inl (Raised e)\<close> show ?thesis by (simp add: setitem_exc_def)
qed

lemma setitem_exc_RecursionError:
  "fst (setitem_exc eq lt limit d m key nv) = Some RecursionError \<Longrightarrow>
   root (snd (setitem_exc eq lt limit d m key nv)) = root m \<and>
   (num_entries (snd (setitem_exc eq lt limit d m key nv)) = num_entries m \<or>
    num_entries (snd (setitem_exc eq lt limit d m key nv)) = num_entries m + 1)"
proof (cases "limit < d + 1")
  case True
  then show ?thesis by (simp add: setitem_exc_def)
next
  case dl: False
  assume a: "fst (setitem_exc eq lt limit d m key nv) = Some RecursionError"
  obtain out t' n' where s:
    "set_item_exc eq lt limit (d + 1) (root m) key nv (num_entries m) = (out, t', n')"
    by (rule prod_cases3)
  with a dl have o: "out = Inl RecursionError"
    by (cases out) (simp_all add: setitem_exc_def)
  with s set_item_exc_RecursionError [of eq lt limit "d + 1" "root m" key nv "num_entries m"]
  have "t' = root m" "n' = num_entries m \<or> n' = num_entries m + 1" by simp_all
  with s dl o show ?thesis by (simp add: setitem_exc_def)
qed

lemma setitem_exc_returns:
  "fst (setitem_exc eq lt limit d m key nv) = None \<Longrightarrow>
   (links_leaf (root m) key nv (root (snd (setitem_exc eq lt limit d m key nv))) \<and>
    num_entries (snd (setitem_exc eq lt limit d m key nv)) = num_entries m + 1) \<or>
   (overwrites eq (root m) key nv (root (snd (setitem_exc eq lt limit d m key nv))) \<and>
    num_entries (snd (setitem_exc eq lt limit d m key nv)) = num_entries m)"
proof -
  assume a: "fst (setitem_exc eq lt limit d m key nv) = None"
  obtain out t' n' where s:
    "set_item_exc eq lt limit (d + 1) (root m) key nv (num_entries m) = (out, t', n')"
    by (rule prod_cases3)
  from a have dl: "\<not> limit < d + 1" by (auto simp: setitem_exc_def)
  with a s obtain c where o: "out = Inr c"
    by (cases out) (simp_all add: setitem_exc_def)
  with s set_item_exc_returns [of eq lt limit "d + 1" "root m" key nv "num_entries m" c t' n']
  have "(links_leaf (root m) key nv (Some c) \<and> n' = num_entries m + 1) \<or>
        (overwrites eq (root m) key nv (Some c) \<and> n' = num_entries m)" by simp
  with s dl o show ?thesis by (simp add: setitem_exc_def)
qed

lemma ascending_insertions_return:
  "d + 1 + j < limit \<Longrightarrow>
   setitem_exc (\<lambda>a b. (Inr (a = b) :: 'e + bool)) (\<lambda>a b. (Inr (a < b) :: 'e + bool)) limit d
     (inserts (init []) (map (\<lambda>i. (int i, v)) [0..<j])) (int j) v =
   (None, inserts (init []) (map (\<lambda>i. (int i, v)) [0..<Suc j]))"
proof -
  assume a: "d + 1 + j < limit"
  have "length (okeys (root (inserts (init []) (map (\<lambda>i. (int i, v)) [0..<j])))) = j"
    by (simp add: inserts_ascending okeys_spine)
  with a have "d + 1 + length (okeys (root (inserts (init []) (map (\<lambda>i. (int i, v)) [0..<j]))))
    < limit" by simp
  from setitem_exc_total [OF this, where ?'e = 'e] show ?thesis
    by (simp add: inserts_snoc)
qed

section \<open>The claims\<close>

text \<open>
  C1. In every map built from the empty map by a sequence of insertions, the key iterator
  yields the keys in strictly ascending order; the keys it yields are exactly the keys that
  were inserted; and a second call, on the map as the first call has left it, yields the
  same sequence.
\<close>

theorem entries_in_order_ascending:
  "sorted_wrt (<) (fst (iter (inserts (init []) ps))) \<and>
   set (fst (iter (inserts (init []) ps))) = fst ` set ps \<and>
   fst (iter (snd (iter (inserts (init []) ps)))) = fst (iter (inserts (init []) ps))"
proof -
  have "bst (root (inserts (init []) ps))"
    using invar_reach [of ps] by (simp add: invar_def)
  then show ?thesis
    by (simp add: fst_iter snd_iter bst_sorted keys_reach)
qed

text \<open>
  C2. After any sequence of insertions into the empty map, looking up a key returns the
  value of the last insertion of that key (the insertion after which the key does not occur
  again). Inserting \<open>(key, v1)\<close> and then \<open>(key, v2)\<close> into any map makes the lookup
  return \<open>v2\<close>; the second insertion leaves the size as it is, and the first one adds one
  to it exactly when the key was not in the map.
\<close>

theorem lookup_last_inserted:
  "(key \<notin> fst ` set ys \<longrightarrow>
      fst (getitem (inserts (init []) (xs @ (key, v) # ys)) key) = Inr v) \<and>
   fst (getitem (setitem (setitem m key v1) key v2) key) = Inr v2 \<and>
   fst (len (setitem (setitem m key v1) key v2)) = fst (len (setitem m key v1)) \<and>
   fst (len (setitem m key v1)) = fst (len m) + (if fst (contains m key) then 0 else 1)"
  by (simp add: getitem_def len_def contains_def get_item_last root_setitem
      num_entries_setitem get_item_set_item count_set_item contains_rec_set_item)

theorem lookup_last_inserted_witness:
  "(3::int) \<notin> fst ` set [(8::int, ''C'')] \<and>
   fst (getitem (inserts (init []) ([(5, ''A''), (3, ''B'')] @ (3, ''D'') # [(8, ''C'')]))
     (3::int)) = Inr ''D'' \<and>
   fst (getitem (setitem (setitem (init [(5, ''A'')]) (3::int) ''B'') 3 ''D'') 3) = Inr ''D''"
  using lookup_last_inserted
    [where key = "3::int" and ys = "[(8, ''C'')]" and xs = "[(5, ''A''), (3, ''B'')]"
       and v = "''D''" and m = "init [(5, ''A'')]" and ?v1.0 = "''B''" and ?v2.0 = "''D''"]
  by simp

text \<open>
  C3. After any sequence of insertions into the empty map, the size is the number of
  distinct keys inserted; it is also the number of keys reachable from the root, none of
  which occurs twice.
\<close>

theorem size_counts_distinct_keys:
  "fst (len (inserts (init []) ps)) = int (card (fst ` set ps)) \<and>
   fst (len (inserts (init []) ps)) = int (card (set (okeys (root (inserts (init []) ps))))) \<and>
   distinct (okeys (root (inserts (init []) ps)))"
proof -
  let ?m = "inserts (init []) ps"
  have i: "invar ?m" by (rule invar_reach)
  then have s: "sorted_wrt (<) (okeys (root ?m))" by (simp add: invar_def bst_sorted)
  then have d: "distinct (okeys (root ?m))" by (simp add: strict_sorted_iff)
  from i have "num_entries ?m = int (length (okeys (root ?m)))" by (simp add: invar_def)
  also have "\<dots> = int (card (set (okeys (root ?m))))" using d by (simp add: distinct_card)
  finally show ?thesis using d by (simp add: len_def keys_reach)
qed

text \<open>
  C4. For a key that was never inserted, the strict lookup fails with \<open>KeyError\<close>, the
  membership test is false and the defaulting lookup returns the default. Whenever a
  strict lookup fails, on any map, it fails with the \<open>KeyError\<close> of the key looked up; the
  other operations have no failure of their own.
\<close>

theorem absent_key_lookup:
  "(key \<notin> fst ` set ps \<longrightarrow>
      fst (getitem (inserts (init []) ps) key) = Inl (KeyError key) \<and>
      fst (contains (inserts (init []) ps) key) = False \<and>
      fst (get (inserts (init []) ps) key d) = d) \<and>
   (fst (getitem m k') = Inl e \<longrightarrow> e = KeyError k')"
proof -
  have "\<not> contains_rec (root (inserts (init []) ps)) key" if "key \<notin> fst ` set ps"
    using that invar_reach [of ps] keys_reach [of ps]
    by (simp add: invar_def contains_rec_iff)
  then show ?thesis
    by (auto simp: getitem_def contains_def get_def get_item_absent get_rec_absent
        dest: get_item_error)
qed

theorem absent_key_lookup_witness:
  "(7::int) \<notin> fst ` set [(5::int, ''A''), (3, ''B'')] \<and>
   fst (getitem (inserts (init []) [(5, ''A''), (3, ''B'')]) (7::int)) = Inl (KeyError 7) \<and>
   fst (contains (inserts (init []) [(5, ''A''), (3, ''B'')]) (7::int)) = False \<and>
   fst (get (inserts (init []) [(5, ''A''), (3, ''B'')]) (7::int) ''none'') = ''none'' \<and>
   fst (getitem (init [(5::int, ''A'')]) 7) = Inl (KeyError 7)"
proof -
  have h: "fst (getitem (init [(5::int, ''A'')]) 7) = Inl (KeyError 7)"
    by (simp add: getitem_def init_def setitem_def)
  show ?thesis
    using h absent_key_lookup
      [where key = "7::int" and ps = "[(5, ''A''), (3, ''B'')]" and d = "''none''"
         and m = "init [(5::int, ''A'')]" and k' = 7 and e = "KeyError 7"]
    by simp
qed

text \<open>
  C5. Constructing a map from a sequence of pairs gives the same map state as the same
  insertions made one by one on an empty map, hence the same size, the same result of
  every lookup and the same key sequence; the empty sequence gives the empty map.
\<close>

theorem construction_equivalence:
  "init ps = inserts (init []) ps \<and>
   fst (len (init ps)) = fst (len (inserts (init []) ps)) \<and>
   (\<forall>key. fst (getitem (init ps) key) = fst (getitem (inserts (init []) ps) key)) \<and>
   fst (iter (init ps)) = fst (iter (inserts (init []) ps)) \<and>
   init [] = \<lparr>root = None, num_entries = 0\<rparr> \<and>
   fst (len (init [])) = 0 \<and> fst (iter (init [])) = []"
proof -
  have "init ps = inserts (init []) ps"
    by (simp add: init_def init_loop_inserts inserts_Nil)
  then show ?thesis
    by (simp add: init_Nil len_def iter_def)
qed

text \<open>
  C6. The rendering of a map built by insertions is an opening brace, the items
  \<open>repr(key): repr(value)\<close> separated by a comma and a space, in ascending order of the
  keys and with the value last inserted for each key, and a closing brace. After inserting
  (5,"A"), (3,"B"), (8,"C"), (3,"D") it is \<^verbatim>\<open>{3: 'D', 5: 'A', 8: 'C'}\<close>; the empty map
  renders as \<^verbatim>\<open>{}\<close>.
\<close>

theorem canonical_rendering:
  "fst (str repr_k repr_v (inserts (init []) ps)) =
     Inr (''{'' @ join '', ''
            (map (\<lambda>k. repr_k k @ '': '' @ repr_v (the (map_of (rev ps) k)))
               (sorted_list_of_set (fst ` set ps))) @ ''}'') \<and>
   fst (str repr_int repr_str
          (inserts (init []) [(5, ''A''), (3, ''B''), (8, ''C''), (3, ''D'')])) =
     Inr [CHR ''{'', CHR ''3'', CHR '':'', CHR '' '', CHR 0x27, CHR ''D'', CHR 0x27,
          CHR '','', CHR '' '', CHR ''5'', CHR '':'', CHR '' '', CHR 0x27, CHR ''A'', CHR 0x27,
          CHR '','', CHR '' '', CHR ''8'', CHR '':'', CHR '' '', CHR 0x27, CHR ''C'', CHR 0x27,
          CHR ''}''] \<and>
   fst (str repr_k repr_v (init [])) = Inr ''{}''"
proof -
  have a: "fst (str repr_k repr_v (inserts (init []) ps)) =
     Inr (''{'' @ join '', ''
            (map (\<lambda>k. repr_k k @ '': '' @ repr_v (the (map_of (rev ps) k)))
               (sorted_list_of_set (fst ` set ps))) @ ''}'')"
  proof -
    have "set (okeys (root (inserts (init []) ps))) \<subseteq> fst ` set ps"
      by (simp add: keys_reach)
    from str_items_reach [OF this, of repr_k repr_v]
    show ?thesis by (simp add: str_def fst_iter okeys_reach)
  qed
  have b: "fst (str repr_int repr_str
          (inserts (init []) [(5, ''A''), (3, ''B''), (8, ''C''), (3, ''D'')])) =
     Inr [CHR ''{'', CHR ''3'', CHR '':'', CHR '' '', CHR 0x27, CHR ''D'', CHR 0x27,
          CHR '','', CHR '' '', CHR ''5'', CHR '':'', CHR '' '', CHR 0x27, CHR ''A'', CHR 0x27,
          CHR '','', CHR '' '', CHR ''8'', CHR '':'', CHR '' '', CHR 0x27, CHR ''C'', CHR 0x27,
          CHR ''}'']"
    by code_simp
  have c: "fst (str repr_k repr_v (init [])) = Inr ''{}''"
    by (simp add: str_def init_Nil iter_def)
  from a b c show ?thesis by blast
qed

text \<open>
  C7. An insertion is not atomic when it runs into the recursion limit. Insert the keys
  \<open>0\<close>, \<open>1\<close>, \<open>2\<close>, ... in ascending order, \<^verbatim>\<open>__setitem__\<close> running in frame \<open>d\<close> under
  the limit \<open>limit\<close>: the insertions of the first \<open>limit - d - 1\<close> keys return (lemma
  \<open>ascending_insertions_return\<close>), and the next one raises \<^verbatim>\<open>RecursionError\<close> in the call
  of \<^verbatim>\<open>BSTMap._Node\<close>, after the counter has been incremented. The tree is then as it
  was, the count is one more than it was, and the size is one more than the number of
  keys the iterator yields. An insertion that ends with the exception of a key
  comparison does leave the map as it was (lemma \<open>setitem_exc_Raised\<close>).
\<close>

theorem setitem_counts_before_linking:
  "d < limit \<Longrightarrow>
   (let m = inserts (init []) (map (\<lambda>i. (int i, v)) [0..<limit - d - 1]);
        r = setitem_exc (\<lambda>a b. Inr (a = b)) (\<lambda>a b. Inr (a < b)) limit d m
              (int (limit - d - 1)) v
    in fst r = Some (RecursionError :: 'e exc) \<and>
       root (snd r) = root m \<and>
       num_entries (snd r) = num_entries m + 1 \<and>
       fst (len (snd r)) = int (length (fst (iter (snd r)))) + 1)"
proof -
  assume a: "d < limit"
  define j where "j = limit - d - 1"
  with a have dj: "(d + 1) + j = limit" by simp
  have m: "inserts (init []) (map (\<lambda>i. (int i, v)) [0..<j]) =
             \<lparr>root = spine 0 j v, num_entries = int j\<rparr>"
    by (rule inserts_ascending)
  have "set_item_exc (\<lambda>a b. (Inr (a = b) :: 'e + bool)) (\<lambda>a b. (Inr (a < b) :: 'e + bool))
          limit (d + 1) (spine 0 j v) (int j) v (int j) =
        (Inl RecursionError, spine 0 j v, int j + 1)"
    by (rule set_item_exc_spine [OF dj]) simp
  with a have "setitem_exc (\<lambda>a b. (Inr (a = b) :: 'e + bool)) (\<lambda>a b. (Inr (a < b) :: 'e + bool))
          limit d \<lparr>root = spine 0 j v, num_entries = int j\<rparr> (int j) v =
        (Some RecursionError, \<lparr>root = spine 0 j v, num_entries = int j + 1\<rparr>)"
    by (simp add: setitem_exc_def)
  then show ?thesis
    unfolding j_def [symmetric] m
    by (simp add: Let_def len_def fst_iter okeys_spine)
qed

theorem setitem_counts_before_linking_witness:
  "(2::nat) < 1000 \<and>
   (let m = inserts (init []) (map (\<lambda>i. (int i, ''x'')) [0..<997]);
        r = setitem_exc (\<lambda>a b. Inr (a = b)) (\<lambda>a b. Inr (a < b)) 1000 2 m 997 ''x''
    in fst r = Some (RecursionError :: unit exc) \<and>
       root (snd r) = root m \<and>
       num_entries (snd r) = num_entries m + 1 \<and>
       fst (len (snd r)) = int (length (fst (iter (snd r)))) + 1)"
proof -
  have h: "(2::nat) < 1000" by simp
  have e: "(1000::nat) - 2 - 1 = 997" by simp
  from setitem_counts_before_linking [OF h, where v = "''x''" and ?'e = unit]
  show ?thesis
    unfolding e by (simp add: Let_def del: upt_rec_numeral)
qed

text \<open>
  C8. The strict lookup, the defaulting lookup, the membership test, the size query and
  the key iterator leave every map unchanged.
\<close>

theorem queries_leave_map_unchanged:
  "snd (getitem m key) = m \<and> snd (get m key d) = m \<and> snd (contains m key) = m \<and>
   snd (len m) = m \<and> snd (iter m) = m"
  by (simp add: getitem_def get_def contains_def len_def snd_iter)

text \<open>
  C9. The defaulting lookup called without a default, for a key that was never inserted,
  returns \<^verbatim>\<open>None\<close>.
\<close>

theorem get_without_default:
  "key \<notin> fst ` set ps \<Longrightarrow> fst (get_call (inserts (init []) ps) key None) = PyNone"
proof -
  assume "key \<notin> fst ` set ps"
  then have "\<not> contains_rec (root (inserts (init []) ps)) key"
    using invar_reach [of ps] keys_reach [of ps]
    by (simp add: invar_def contains_rec_iff)
  then show ?thesis
    by (simp add: get_call_def get_def get_rec_absent)
qed

theorem get_without_default_witness:
  "(7::int) \<notin> fst ` set [(5::int, PyObj ''A'')] \<and>
   fst (get_call (inserts (init []) [(5, PyObj ''A'')]) (7::int) None) = PyNone"
proof -
  have h: "(7::int) \<notin> fst ` set [(5::int, PyObj ''A'')]" by simp
  from h get_without_default [OF h] show ?thesis by simp
qed

text \<open>
  C10. The debugging representation of a map is its string rendering.
\<close>

theorem repr_is_str: "repr repr_k repr_v m = str repr_k repr_v m"
  by (simp add: repr_def)

end
